theory Spec2Isabelle
  imports Complex_Main "HOL-Library.Multiset" "HOL-Library.Sublist"
begin


section \<open>Python strings\<close>

text \<open>
  A Python \<open>str\<close> is modelled as a \<^typ>\<open>string\<close>; a \<^typ>\<open>char\<close> stands for one
  character of the \<open>str\<close> with code point below 256. The helpers below are the
  \<open>str\<close> methods that \<open>freeride.py\<close> calls, with Python's results.
\<close>

definition is_space :: "char \<Rightarrow> bool" where
  \<comment> \<open>\<open>str.isspace\<close> of one character, which is also what \<open>\<bslash>s\<close> matches in \<open>re\<close>:
      tab, line feed, vertical tab, form feed, carriage return, the four separators
      0x1C..0x1F, space, and (in Latin-1) 0x85 and 0xA0.\<close>
  "is_space c \<longleftrightarrow>
     c \<in> set [CHR 0x09, CHR 0x0A, CHR 0x0B, CHR 0x0C, CHR 0x0D, CHR 0x1C, CHR 0x1D,
              CHR 0x1E, CHR 0x1F, CHR 0x20, CHR 0x85, CHR 0xA0]"

definition lstrip :: "string \<Rightarrow> string" where
  "lstrip s = dropWhile is_space s"

definition rstrip :: "string \<Rightarrow> string" where
  "rstrip s = rev (dropWhile is_space (rev s))"

definition strip :: "string \<Rightarrow> string" where
  "strip s = rstrip (lstrip s)"

definition startswith :: "string \<Rightarrow> string \<Rightarrow> bool" where
  \<comment> \<open>\<open>s.startswith(p)\<close>\<close>
  "startswith s p \<longleftrightarrow> take (length p) s = p"

definition endswith :: "string \<Rightarrow> string \<Rightarrow> bool" where
  \<comment> \<open>\<open>s.endswith(p)\<close>\<close>
  "endswith s p \<longleftrightarrow> length p \<le> length s \<and> drop (length s - length p) s = p"

fun contains :: "string \<Rightarrow> string \<Rightarrow> bool" where
  \<comment> \<open>\<open>x in s\<close> for two strings: \<open>x\<close> occurs in \<open>s\<close> as a substring.\<close>
  "contains [] x = (x = [])"
| "contains (c # s) x = (startswith (c # s) x \<or> contains s x)"

fun split_on :: "char \<Rightarrow> string \<Rightarrow> string list" where
  \<comment> \<open>\<open>s.split(sep)\<close> for a separator of one character: never the empty list.\<close>
  "split_on sep [] = [[]]"
| "split_on sep (c # s) =
     (if c = sep then [] # split_on sep s
      else (case split_on sep s of p # ps \<Rightarrow> (c # p) # ps | [] \<Rightarrow> [[c]]))"

fun join_on :: "char \<Rightarrow> string list \<Rightarrow> string" where
  \<comment> \<open>\<open>sep.join(parts)\<close>\<close>
  "join_on sep [] = []"
| "join_on sep [p] = p"
| "join_on sep (p # q # ps) = p @ sep # join_on sep (q # ps)"

definition upper_chars :: "char list" where
  \<comment> \<open>The characters below 256 that \<open>str.lower\<close> changes: the ASCII capitals, and
      the Latin-1 capitals 0xC0..0xDE but for the multiplication sign 0xD7.\<close>
  "upper_chars = ''ABCDEFGHIJKLMNOPQRSTUVWXYZ'' @
       [CHR 0xC0, CHR 0xC1, CHR 0xC2, CHR 0xC3, CHR 0xC4, CHR 0xC5, CHR 0xC6, CHR 0xC7,
        CHR 0xC8, CHR 0xC9, CHR 0xCA, CHR 0xCB, CHR 0xCC, CHR 0xCD, CHR 0xCE, CHR 0xCF,
        CHR 0xD0, CHR 0xD1, CHR 0xD2, CHR 0xD3, CHR 0xD4, CHR 0xD5, CHR 0xD6, CHR 0xD8,
        CHR 0xD9, CHR 0xDA, CHR 0xDB, CHR 0xDC, CHR 0xDD, CHR 0xDE]"

definition lower_chars :: "char list" where
  \<comment> \<open>Their lower-case forms, position by position (each 32 above).\<close>
  "lower_chars = ''abcdefghijklmnopqrstuvwxyz'' @
       [CHR 0xE0, CHR 0xE1, CHR 0xE2, CHR 0xE3, CHR 0xE4, CHR 0xE5, CHR 0xE6, CHR 0xE7,
        CHR 0xE8, CHR 0xE9, CHR 0xEA, CHR 0xEB, CHR 0xEC, CHR 0xED, CHR 0xEE, CHR 0xEF,
        CHR 0xF0, CHR 0xF1, CHR 0xF2, CHR 0xF3, CHR 0xF4, CHR 0xF5, CHR 0xF6, CHR 0xF8,
        CHR 0xF9, CHR 0xFA, CHR 0xFB, CHR 0xFC, CHR 0xFD, CHR 0xFE]"

definition lower_char :: "char \<Rightarrow> char" where
  "lower_char c = (case map_of (zip upper_chars lower_chars) c of Some d \<Rightarrow> d | None \<Rightarrow> c)"

definition lower :: "string \<Rightarrow> string" where
  "lower s = map lower_char s"

section \<open>Identity normalizer and router format\<close>

definition prefixes :: "string list" where
  "prefixes = [''openrouter:'', ''anthropic:'', ''google:'', ''kimi:'', ''exo:'',
               ''nvidia:'', ''lmstudio:'']"

definition normalize_model_id :: "string \<Rightarrow> string" where
  "normalize_model_id model_id =
     (let normalized = strip model_id;
          normalized = (case find (\<lambda>p. startswith normalized p) prefixes of
                          Some p \<Rightarrow> drop (length p) normalized
                        | None \<Rightarrow> normalized);
          normalized = (if endswith normalized '':free''
                        then take (length normalized - 5) normalized else normalized)
      in lower normalized)"

definition format_model_for_router :: "string \<Rightarrow> string" where
  "format_model_for_router model_id =
     (let base_id = (if \<not> contains model_id '':free'' then model_id @ '':free''
                     else model_id);
          base_id = (if startswith base_id ''openrouter/''
                     then drop (length ''openrouter/'') base_id else base_id)
      in ''openrouter:'' @ base_id)"

section \<open>Tiers and tier entries\<close>

datatype tier = SuperEasy | Easy | Medium | Hard | SuperHard

fun tier_name :: "tier \<Rightarrow> string" where
  "tier_name SuperEasy = ''super_easy''"
| "tier_name Easy = ''easy''"
| "tier_name Medium = ''medium''"
| "tier_name Hard = ''hard''"
| "tier_name SuperHard = ''super_hard''"

definition all_tiers :: "tier list" where
  \<comment> \<open>The order in which the parser and the rewriter try the five names.\<close>
  "all_tiers = [SuperEasy, Easy, Medium, Hard, SuperHard]"

text \<open>
  A tier entry is the pair \<open>(model_str, is_commented)\<close> that the parser extracts from
  one line of a tier's body.
\<close>

type_synonym tier_entry = "string \<times> bool"

section \<open>Comment-preserving merger\<close>

fun has_duplicate :: "tier_entry list \<Rightarrow> string \<Rightarrow> bool" where
  "has_duplicate [] new_model = False"
| "has_duplicate ((existing_model, is_commented) # tier_entries) new_model =
     (if normalize_model_id new_model = normalize_model_id existing_model then True
      else has_duplicate tier_entries new_model)"

definition entry_line :: "tier_entry \<Rightarrow> string" where
  \<comment> \<open>The line the first pass of the merger writes for an existing entry.\<close>
  "entry_line e = (if snd e then ''  # - '' @ fst e else ''  - '' @ fst e)"

text \<open>
  The two passes of \<open>merge_models_with_comments\<close> thread the pair
  \<open>(result, added_models)\<close>: the lines written so far and the set of normalized
  identities seen so far.
\<close>

fun first_pass :: "tier_entry list \<Rightarrow> string list \<times> string set \<Rightarrow> string list \<times> string set" where
  "first_pass [] st = st"
| "first_pass ((model_str, is_commented) # tier_entries) (result, added_models) =
     first_pass tier_entries
       (result @ [entry_line (model_str, is_commented)],
        insert (normalize_model_id model_str) added_models)"

fun second_pass :: "string list \<Rightarrow> string list \<times> string set \<Rightarrow> string list \<times> string set" where
  "second_pass [] st = st"
| "second_pass (new_model # new_models) (result, added_models) =
     (if normalize_model_id new_model \<notin> added_models
      then second_pass new_models
             (result @ [''  - '' @ new_model],
              insert (normalize_model_id new_model) added_models)
      else second_pass new_models (result, added_models))"

definition merge_models_with_comments :: "tier_entry list \<Rightarrow> string list \<Rightarrow> string list" where
  "merge_models_with_comments tier_entries new_models =
     fst (second_pass new_models (first_pass tier_entries ([], {})))"

section \<open>Catalog ranker\<close>

text \<open>
  A catalog entry, with the two fields that the classifier and the router format read.
  A scored entry is the entry with its \<open>_score\<close>. The score is a Python float: it is
  modelled as the real number the float denotes, and each float literal of the source
  as the exact value of the double it is read as.
\<close>

record model =
  model_id :: string
  context_length :: int

type_synonym scored_model = "model \<times> real"

definition sort_reverse :: "('a \<Rightarrow> real) \<Rightarrow> 'a list \<Rightarrow> 'a list" where
  \<comment> \<open>\<open>list.sort(key=key, reverse=True)\<close>: CPython reverses the list, sorts it stably
      in ascending order of the key, and reverses the result.\<close>
  "sort_reverse key xs = rev (sort_key key (rev xs))"

definition rank_free_models :: "(model \<Rightarrow> real) \<Rightarrow> model list \<Rightarrow> scored_model list" where
  \<comment> \<open>The first argument is \<open>calculate_model_score\<close>, which the loop calls once per
      model; its float arithmetic and its reading of the clock are not modelled. The
      dictionary \<open>{**model, "_score": score}\<close> is the pair of the model and the score.\<close>
  "rank_free_models calculate_model_score models =
     sort_reverse snd (map (\<lambda>m. (m, calculate_model_score m)) models)"

section \<open>Tier classifier\<close>

definition f0_5 :: real where "f0_5 = 1 / 2"
definition f0_4 :: real where "f0_4 = 3602879701896397 / 9007199254740992"
definition f0_6 :: real where "f0_6 = 5404319552844595 / 9007199254740992"
definition f0_7 :: real where "f0_7 = 3152519739159347 / 4503599627370496"
definition f0_3 :: real where "f0_3 = 5404319552844595 / 18014398509481984"

definition any_in :: "string list \<Rightarrow> string \<Rightarrow> bool" where
  \<comment> \<open>\<open>any(x in name for x in keywords)\<close>\<close>
  "any_in keywords name = list_ex (\<lambda>x. contains name x) keywords"

definition categorize_model :: "scored_model \<Rightarrow> tier" where
  "categorize_model m =
     (let model_id = lower (model_id (fst m));
          context_length = context_length (fst m);
          score = snd m;
          model_name = (if contains model_id ''/'' then last (split_on CHR ''/'' model_id)
                        else model_id)
      in
      if any_in [''opus'', ''o1'', ''o3'', ''deepseek-r1'', ''qwen3-235b'', ''thinking''] model_name
         \<and> (score > f0_5 \<or> context_length > 100000) then SuperHard
      else if any_in [''coder'', ''65b'', ''70b'', ''405b'', ''large'', ''gemini-2.5''] model_name
         \<and> score > f0_4 then Hard
      else if any_in [''1b'', ''1.5b'', ''2b'', ''3b'', ''gemma-2b'', ''nano''] model_name
         then SuperEasy
      else if any_in [''7b'', ''8b'', ''9b'', ''nano'', ''mini'', ''small'', ''gemma''] model_name
         then Easy
      else if any_in [''14b'', ''27b'', ''32b'', ''flash'', ''mistral'', ''llama-3.3''] model_name
         then Medium
      else if context_length \<ge> 128000 \<or> score > f0_6 then Hard
      else if score > f0_7 then Hard
      else if score > f0_5 then Medium
      else if score > f0_3 then Easy
      else SuperEasy)"

section \<open>Distribution to tiers\<close>

definition free_router :: string where
  "free_router = ''openrouter:openrouter/free:free''"

fun categorize_each :: "scored_model list \<Rightarrow> (tier \<Rightarrow> string list) \<Rightarrow> (tier \<Rightarrow> string list)" where
  \<comment> \<open>The loop over the ranked models, on the dictionary \<open>tiers\<close>.\<close>
  "categorize_each [] tiers = tiers"
| "categorize_each (m # ranked_models) tiers =
     (let tier = categorize_model m;
          formatted = format_model_for_router (model_id (fst m))
      in categorize_each ranked_models
           (if formatted \<notin> set (tiers tier) then tiers(tier := tiers tier @ [formatted])
            else tiers))"

definition distribute_to_tiers :: "scored_model list \<Rightarrow> (tier \<Rightarrow> string list)" where
  \<comment> \<open>The argument \<open>config\<close> of the source only changes \<open>tier_mapping\<close>, which the
      function never reads; it is left out.\<close>
  "distribute_to_tiers ranked_models =
     (let tiers = categorize_each ranked_models (\<lambda>tier. [])
      in (\<lambda>tier_name. if free_router \<notin> set (tiers tier_name)
                       then tiers tier_name @ [free_router] else tiers tier_name))"

text \<open>
  The merger's result read as entries: \<open>inserted seen new_models\<close> lists the candidates
  that the second pass appends when \<open>seen\<close> holds the identities it starts from, and
  \<open>identities\<close> is the set the first pass leaves in \<open>added_models\<close>. Both serve to state
  what the two passes compute.
\<close>

fun inserted :: "string set \<Rightarrow> string list \<Rightarrow> string list" where
  "inserted seen [] = []"
| "inserted seen (c # cs) =
     (if normalize_model_id c \<in> seen then inserted seen cs
      else c # inserted (insert (normalize_model_id c) seen) cs)"

definition identities :: "tier_entry list \<Rightarrow> string set" where
  "identities es = (\<lambda>e. normalize_model_id (fst e)) ` set es"

section \<open>Tiered text parser\<close>

definition re_match_tier :: "tier \<Rightarrow> string \<Rightarrow> bool" where
  \<comment> \<open>\<open>re.match(rf"^{re.escape(tier_name)}:\<bslash>s*$", s)\<close>: the name, a colon, and nothing
      but white space up to the end.\<close>
  "re_match_tier t s \<longleftrightarrow>
     startswith s (tier_name t @ '':'') \<and> list_all is_space (drop (length (tier_name t @ '':'')) s)"

definition indent_of :: "string \<Rightarrow> nat" where
  \<comment> \<open>\<open>len(line) - len(line.lstrip())\<close>\<close>
  "indent_of line = length line - length (lstrip line)"

text \<open>
  \<open>re.search(r'#\<bslash>s*(-\<bslash>s*)?(.+)', stripped)\<close>, group 2. The lines come from a split at
  line feeds, so \<open>.\<close> matches every character of them. The leftmost match starts at the first
  \<open>#\<close>. After it the two \<open>\<bslash>s*\<close> and the optional group are greedy, and \<open>.+\<close> takes the
  rest; when nothing is left for \<open>.+\<close> the matcher backtracks: it gives \<open>.+\<close> the last
  white-space character, or, after a lone final \<open>-\<close>, drops the optional group and gives
  \<open>.+\<close> the \<open>-\<close>. No match exists only when the first \<open>#\<close> ends the string.
\<close>

definition match_after_hash :: "string \<Rightarrow> string option" where
  "match_after_hash r =
     (case dropWhile is_space r of
        [] \<Rightarrow> (if r = [] then None else Some [last r])
      | c # r' \<Rightarrow>
          if c = CHR ''-'' then
            (if dropWhile is_space r' \<noteq> [] then Some (dropWhile is_space r')
             else if r' \<noteq> [] then Some [last r']
             else Some (c # r'))
          else Some (c # r'))"

definition re_search_comment :: "string \<Rightarrow> string option" where
  "re_search_comment s =
     (case dropWhile (\<lambda>c. c \<noteq> CHR ''#'') s of
        [] \<Rightarrow> None
      | h # r \<Rightarrow> match_after_hash r)"

definition parse_entry :: "string \<Rightarrow> tier_entry list" where
  \<comment> \<open>"Process model lines": what one stripped line of a tier adds to the tier's list.\<close>
  "parse_entry stripped =
     (if stripped \<noteq> [] then
        (if startswith stripped ''#'' \<or> startswith stripped ''- #'' then
           (case re_search_comment stripped of
              Some model_str \<Rightarrow> [(strip model_str, True)]
            | None \<Rightarrow> [])
         else if startswith stripped ''- '' then [(strip (drop 2 stripped), False)]
         else [])
      else [])"

definition exits_tier :: "string list \<Rightarrow> tier \<Rightarrow> string \<Rightarrow> bool" where
  \<comment> \<open>"Exit tier if we hit another top-level key": the two \<open>break\<close>s of the parser.
      \<open>keys\<close> is \<open>models_section.keys()\<close>, which comes from the YAML reader.\<close>
  "exits_tier keys t line \<longleftrightarrow>
     (let stripped = strip line; current_indent = indent_of line in
      stripped \<noteq> [] \<and> current_indent \<le> 0 \<and> CHR '':'' \<in> set stripped \<and>
      (\<not> list_ex (\<lambda>k. startswith stripped k) keys
       \<or> hd (split_on CHR '':'' stripped) \<noteq> tier_name t))"

fun parse_lines :: "string list \<Rightarrow> tier \<Rightarrow> bool \<Rightarrow> string list \<Rightarrow> tier_entry list" where
  \<comment> \<open>The loop over the lines for one tier name; the flag is \<open>in_tier\<close>. (The loop also
      sets \<open>indent_level\<close>, which nothing reads.)\<close>
  "parse_lines keys t in_tier [] = []"
| "parse_lines keys t in_tier (line # lines) =
     (if re_match_tier t (strip line) then parse_lines keys t True lines
      else if in_tier then
        (if exits_tier keys t line then []
         else parse_entry (strip line) @ parse_lines keys t True lines)
      else parse_lines keys t False lines)"

definition parse_tiers :: "string list \<Rightarrow> string \<Rightarrow> (tier \<Rightarrow> tier_entry list)" where
  \<comment> \<open>The dictionary \<open>tier_comments\<close> that \<open>parse_yaml_with_comments\<close> builds from
      \<open>content\<close>, the text that \<open>f.read()\<close> returned.\<close>
  "parse_tiers keys content = (\<lambda>t. parse_lines keys t False (split_on CHR 0x0A content))"

section \<open>Config rewriter\<close>

definition tier_match :: "string \<Rightarrow> tier option" where
  \<comment> \<open>"Check if this is a tier start": the first of the five names whose pattern matches.\<close>
  "tier_match stripped = find (\<lambda>t. re_match_tier t stripped) all_tiers"

definition leaves_tier :: "string \<Rightarrow> bool" where
  \<comment> \<open>"Check if we've left the tier section", for a line that is not blank.\<close>
  "leaves_tier next_line \<longleftrightarrow>
     (let next_stripped = strip next_line; next_indent = indent_of next_line in
      next_indent \<le> 0 \<and> CHR '':'' \<in> set next_stripped \<and>
      hd (split_on CHR '':'' next_stripped) \<notin> set (map tier_name all_tiers))"

fun find_tier_end :: "nat \<Rightarrow> nat \<Rightarrow> string list \<Rightarrow> nat" where
  \<comment> \<open>The inner loop \<open>for j in range(i + 1, len(lines))\<close>: \<open>find_tier_end j tier_end ls\<close>
      runs it from \<open>j\<close> on with \<open>ls = lines[j:]\<close>, and returns the final \<open>tier_end\<close>.\<close>
  "find_tier_end j tier_end [] = tier_end"
| "find_tier_end j tier_end (next_line # ls) =
     (if strip next_line = [] then find_tier_end (j + 1) j ls
      else if leaves_tier next_line then j
      else find_tier_end (j + 1) (j + 1) ls)"

function save_lines :: "(tier \<Rightarrow> string list) \<Rightarrow> string list \<Rightarrow> string list" where
  \<comment> \<open>The loop \<open>while i < len(lines)\<close>, on \<open>lines[i:]\<close>; positions in the inner loop are
      counted from \<open>i + 1\<close>. \<open>merged t\<close> is the merger's output for tier \<open>t\<close>.\<close>
  "save_lines merged [] = []"
| "save_lines merged (line # rest) =
     (case tier_match (strip line) of
        Some t \<Rightarrow> line # merged t @ save_lines merged (drop (find_tier_end 0 0 rest) rest)
      | None \<Rightarrow> line # save_lines merged rest)"
  by pat_completeness auto
termination
  by (relation "measure (\<lambda>(merged, lines). length lines)") auto

definition save_config_with_comments ::
  "(tier \<Rightarrow> tier_entry list) \<Rightarrow> (tier \<Rightarrow> string list) \<Rightarrow> string \<Rightarrow> string" where
  \<comment> \<open>The text written to the file, from \<open>original_content\<close>, the text that
      \<open>f.read()\<close> returned.\<close>
  "save_config_with_comments tier_comments new_tiers original_content =
     join_on CHR 0x0A
       (save_lines (\<lambda>t. merge_models_with_comments (tier_comments t) (new_tiers t))
          (split_on CHR 0x0A original_content))"

fun universal_newlines :: "string \<Rightarrow> string" where
  \<comment> \<open>What \<open>f.read()\<close> returns for a file opened with \<open>open(path, 'r')\<close> that stores the
      given text: a carriage return with a line feed after it, and a carriage return alone,
      are read as one line feed.\<close>
  "universal_newlines [] = []"
| "universal_newlines (c # s) =
     (if c = CHR 0x0D
      then CHR 0x0A # (case s of
                         [] \<Rightarrow> []
                       | d # s' \<Rightarrow> if d = CHR 0x0A then universal_newlines s'
                                  else universal_newlines s)
      else c # universal_newlines s)"

definition update_tier_bodies :: "string list \<Rightarrow> (tier \<Rightarrow> string list) \<Rightarrow> string \<Rightarrow> string" where
  \<comment> \<open>The parse of line 518 and the save of line 572 of \<open>update_config_with_freeride\<close>,
      on a file that stores the text \<open>stored\<close>: both read the file in text mode. The
      result is the text that the save writes, which a system whose line separator is the
      line feed stores as it is. The later steps of that function (lines 576 to 603: the
      YAML dump of the file, a second parse and a second save) are not part of it.\<close>
  "update_tier_bodies keys new_tiers stored =
     (let content = universal_newlines stored
      in save_config_with_comments (parse_tiers keys content) new_tiers content)"

definition with_merged :: "(tier \<Rightarrow> string list) \<Rightarrow> string list \<Rightarrow> string list" where
  \<comment> \<open>The given lines, each followed by the merger's output if it is a tier's start line.\<close>
  "with_merged merged ks =
     concat (map (\<lambda>l. case tier_match (strip l) of Some t \<Rightarrow> l # merged t | None \<Rightarrow> [l]) ks)"

section \<open>Notions used to state the properties\<close>

text \<open>
  A line ends a tier body for the rewriter when it is not blank and \<open>leaves_tier\<close> holds
  of it. The lines after a tier body \<open>stop\<close> the rewriter's scan: there are none, or there
  is one blank line that ends the file, or the first of them ends the body.
\<close>

definition ends_body :: "string \<Rightarrow> bool" where
  "ends_body l \<longleftrightarrow> strip l \<noteq> [] \<and> leaves_tier l"

definition stops :: "string list \<Rightarrow> bool" where
  "stops ls \<longleftrightarrow> ls = [] \<or> (\<exists>b. ls = [b] \<and> strip b = []) \<or> (\<exists>l ls'. ls = l # ls' \<and> ends_body l)"


text \<open>
  A text is well formed when it is not empty and has no white space at either end. An
  entry can be read back from the line the merger writes for it when its text is well
  formed and, if the entry is active, does not begin with \<open>#\<close>. A list of kept lines is
  separated when what follows each tier start line stops the scan. \<open>tier_starts\<close> are the
  tiers that have a start line in the list.
\<close>

definition well_formed_text :: "string \<Rightarrow> bool" where
  "well_formed_text m \<longleftrightarrow> m \<noteq> [] \<and> strip m = m"

definition reparsable :: "tier_entry \<Rightarrow> bool" where
  "reparsable e \<longleftrightarrow> well_formed_text (fst e) \<and> (snd e \<or> \<not> startswith (fst e) ''#'')"

fun separated :: "string list \<Rightarrow> bool" where
  "separated [] = True"
| "separated (l # ks) = ((tier_match (strip l) = None \<or> stops ks) \<and> separated ks)"

definition tier_starts :: "string list \<Rightarrow> tier set" where
  "tier_starts ks = {t. \<exists>l \<in> set ks. tier_match (strip l) = Some t}"


section \<open>Properties of the merger\<close>

lemma first_pass_eq:
  "first_pass es (r, a) = (r @ map entry_line es, a \<union> identities es)"
  by (induction es arbitrary: r a) (auto simp: identities_def)

lemma second_pass_eq:
  "second_pass cs (r, a) =
     (r @ map (\<lambda>c. ''  - '' @ c) (inserted a cs), a \<union> normalize_model_id ` set (inserted a cs))"
  by (induction cs arbitrary: r a) auto

lemma merge_eq:
  "merge_models_with_comments es cs =
     map entry_line es @ map (\<lambda>c. ''  - '' @ c) (inserted (identities es) cs)"
  by (simp add: merge_models_with_comments_def first_pass_eq second_pass_eq)

lemma merge_eq_entries:
  "merge_models_with_comments es cs =
     map entry_line (es @ map (\<lambda>c. (c, False)) (inserted (identities es) cs))"
  by (simp add: merge_eq entry_line_def comp_def)

lemma inserted_subset: "set (inserted a cs) \<subseteq> set cs"
  by (induction cs arbitrary: a) auto

lemma inserted_fresh: "c \<in> set (inserted a cs) \<Longrightarrow> normalize_model_id c \<notin> a"
  by (induction cs arbitrary: a) (auto split: if_splits)

lemma inserted_distinct: "distinct (map normalize_model_id (inserted a cs))"
  by (induction cs arbitrary: a) (auto dest: inserted_fresh)

lemma inserted_covers:
  "c \<in> set cs \<Longrightarrow> normalize_model_id c \<in> a \<union> normalize_model_id ` set (inserted a cs)"
  by (induction cs arbitrary: a) (auto split: if_splits)

lemma has_duplicate_iff: "has_duplicate es c \<longleftrightarrow> normalize_model_id c \<in> identities es"
  by (induction es) (auto simp: identities_def)

lemma inserted_none:
  "normalize_model_id ` set cs \<subseteq> a \<Longrightarrow> inserted a cs = []"
  by (induction cs) auto


text \<open>
  Claim C4 (deduplication invariant). When the existing entries of a tier have pairwise
  distinct normalized identities, the merger's output is the existing entries followed by
  new active entries taken from the candidates, no two entries of the output (active or
  commented) share a normalized identity, and no candidate whose identity is that of an
  existing entry is among the new ones.
\<close>

theorem merge_deduplicates:
  assumes "distinct (map (\<lambda>e. normalize_model_id (fst e)) tier_entries)"
  shows "\<exists>new. merge_models_with_comments tier_entries new_models =
                  map entry_line (tier_entries @ map (\<lambda>c. (c, False)) new)
             \<and> distinct (map (\<lambda>e. normalize_model_id (fst e))
                           (tier_entries @ map (\<lambda>c. (c, False)) new))
             \<and> set new \<subseteq> set new_models
             \<and> (\<forall>c. has_duplicate tier_entries c \<longrightarrow> c \<notin> set new)"
proof -
  let ?new = "inserted (identities tier_entries) new_models"
  have d: "distinct (map normalize_model_id ?new)" by (rule inserted_distinct)
  have f: "\<And>c. c \<in> set ?new \<Longrightarrow> normalize_model_id c \<notin> identities tier_entries"
    by (rule inserted_fresh)
  have s: "set (map (\<lambda>e. normalize_model_id (fst e)) tier_entries) = identities tier_entries"
    by (simp add: identities_def)
  have m: "map (\<lambda>e. normalize_model_id (fst e)) (map (\<lambda>c. (c, False)) ?new)
           = map normalize_model_id ?new"
    by (simp add: comp_def)
  have "set (map (\<lambda>e. normalize_model_id (fst e)) tier_entries)
          \<inter> set (map normalize_model_id ?new) = {}"
    unfolding s using f by auto
  then have "distinct (map (\<lambda>e. normalize_model_id (fst e)) (tier_entries @ map (\<lambda>c. (c, False)) ?new))"
    unfolding map_append distinct_append m using assms d by blast
  moreover have "\<forall>c. has_duplicate tier_entries c \<longrightarrow> c \<notin> set ?new"
    using f by (auto simp: has_duplicate_iff)
  ultimately show ?thesis
    using merge_eq_entries inserted_subset by blast
qed


theorem merge_deduplicates_witness:
  "distinct (map (\<lambda>e. normalize_model_id (fst e))
      [(''openrouter:old/model:free'', False), (''openrouter:banned/model:free'', True)])
   \<and> (\<exists>new. merge_models_with_comments
          [(''openrouter:old/model:free'', False), (''openrouter:banned/model:free'', True)]
          [''openrouter:old/model:free'', ''banned/model'', ''openrouter:new/model:free'']
        = map entry_line
            ([(''openrouter:old/model:free'', False), (''openrouter:banned/model:free'', True)]
             @ map (\<lambda>c. (c, False)) new)
      \<and> distinct (map (\<lambda>e. normalize_model_id (fst e))
            ([(''openrouter:old/model:free'', False), (''openrouter:banned/model:free'', True)]
             @ map (\<lambda>c. (c, False)) new))
      \<and> set new \<subseteq> set [''openrouter:old/model:free'', ''banned/model'', ''openrouter:new/model:free'']
      \<and> (\<forall>c. has_duplicate
                 [(''openrouter:old/model:free'', False), (''openrouter:banned/model:free'', True)] c
               \<longrightarrow> c \<notin> set new))
   \<and> merge_models_with_comments
          [(''openrouter:old/model:free'', False), (''openrouter:banned/model:free'', True)]
          [''openrouter:old/model:free'', ''banned/model'', ''openrouter:new/model:free'']
        = [''  - openrouter:old/model:free'', ''  # - openrouter:banned/model:free'',
           ''  - openrouter:new/model:free'']"
proof -
  have d: "distinct (map (\<lambda>e. normalize_model_id (fst e))
      [(''openrouter:old/model:free'', False), (''openrouter:banned/model:free'', True)])"
    by code_simp
  have v: "merge_models_with_comments
          [(''openrouter:old/model:free'', False), (''openrouter:banned/model:free'', True)]
          [''openrouter:old/model:free'', ''banned/model'', ''openrouter:new/model:free'']
        = [''  - openrouter:old/model:free'', ''  # - openrouter:banned/model:free'',
           ''  - openrouter:new/model:free'']"
    by code_simp
  from merge_deduplicates[OF d] d v show ?thesis by blast
qed







section \<open>Router format and normalizer\<close>

lemma strip_unchanged:
  assumes "s \<noteq> []" "\<not> is_space (hd s)" "\<not> is_space (last s)"
  shows "strip s = s"
proof -
  have l: "lstrip s = s" using assms(1,2) by (cases s) (auto simp: lstrip_def)
  have "dropWhile is_space (rev s) = rev s"
    using assms(1,3) by (cases "rev s") (auto simp: last_rev[symmetric] hd_rev)
  then show ?thesis by (simp add: strip_def rstrip_def l)
qed

lemma endswith_contains: "endswith s x \<Longrightarrow> contains s x"
proof (induction s)
  case Nil
  then show ?case by (simp add: endswith_def)
next
  case (Cons c s)
  show ?case
  proof (cases "length x \<le> length s")
    case True
    with Cons.prems have "endswith s x"
      by (auto simp: endswith_def Suc_diff_le)
    with Cons.IH show ?thesis by simp
  next
    case False
    with Cons.prems have "x = c # s" by (auto simp: endswith_def)
    then show ?thesis by (simp add: startswith_def)
  qed
qed

lemma startswith_append_marker:
  assumes "startswith (m @ '':free'') ''openrouter/''"
  shows "startswith m ''openrouter/''"
proof (cases "11 \<le> length m")
  case True
  with assms show ?thesis by (simp add: startswith_def)
next
  case False
  then obtain k where k: "11 - length m = Suc k" by (cases "11 - length m") auto
  have len: "length ''openrouter/'' = 11" by simp
  from assms have pre: "take 11 (m @ '':free'') = ''openrouter/''"
    unfolding startswith_def len .
  have "CHR '':'' \<in> set (take 11 (m @ '':free''))" by (simp add: k)
  then have "CHR '':'' \<in> set ''openrouter/''" unfolding pre .
  then show ?thesis by simp
qed

lemma find_none: "\<not> list_ex P xs \<Longrightarrow> find P xs = None"
  by (induction xs) auto

text \<open>
  Claim C10 (format/normalize round trip), as amended. For a catalog identifier that has
  no white space at either end, starts with none of the normalizer's scheme prefixes, does
  not hold \<open>:free\<close> and does not start with \<open>openrouter/\<close>, the router-formatted entry
  and the identifier have the same normalized identity.
\<close>

theorem format_normalize_round_trip:
  assumes "strip ident = ident"
    and "\<not> list_ex (startswith ident) prefixes"
    and "\<not> contains ident '':free''"
    and "\<not> startswith ident ''openrouter/''"
  shows "normalize_model_id (format_model_for_router ident) = normalize_model_id ident"
proof -
  have f: "format_model_for_router ident = ''openrouter:'' @ ident @ '':free''"
    using assms(3,4) startswith_append_marker[of ident]
    by (auto simp: format_model_for_router_def Let_def)
  define rest where "rest = ident @ '':free''"
  define full where "full = ''openrouter:'' @ rest"
  have s: "strip full = full"
    by (rule strip_unchanged) (simp_all add: full_def rest_def is_space_def)
  have p: "find (\<lambda>p. startswith full p) prefixes = Some ''openrouter:''"
    by (simp add: prefixes_def startswith_def full_def)
  have d: "drop (length ''openrouter:'') full = rest" by (simp add: full_def)
  have e: "endswith rest '':free''" by (simp add: endswith_def rest_def)
  have t: "take (length rest - 5) rest = ident" by (simp add: rest_def)
  have "normalize_model_id full = lower ident"
    unfolding normalize_model_id_def Let_def s p option.case d using e t by simp
  then have l: "normalize_model_id (''openrouter:'' @ ident @ '':free'') = lower ident"
    by (simp add: full_def rest_def)
  have n: "find (\<lambda>p. startswith ident p) prefixes = None"
    using assms(2) by (rule find_none)
  have "\<not> endswith ident '':free''" using assms(3) endswith_contains by blast
  then have r: "normalize_model_id ident = lower ident"
    by (simp add: normalize_model_id_def Let_def assms(1) n)
  show ?thesis by (simp only: f l r)
qed

theorem format_normalize_round_trip_witness:
  "strip ''google/gemma-2-9b-it'' = ''google/gemma-2-9b-it''
   \<and> \<not> list_ex (startswith ''google/gemma-2-9b-it'') prefixes
   \<and> \<not> contains ''google/gemma-2-9b-it'' '':free''
   \<and> \<not> startswith ''google/gemma-2-9b-it'' ''openrouter/''
   \<and> format_model_for_router ''google/gemma-2-9b-it'' = ''openrouter:google/gemma-2-9b-it:free''
   \<and> normalize_model_id (format_model_for_router ''google/gemma-2-9b-it'')
       = normalize_model_id ''google/gemma-2-9b-it''"
proof -
  have 1: "strip ''google/gemma-2-9b-it'' = ''google/gemma-2-9b-it''" by code_simp
  have 2: "\<not> list_ex (startswith ''google/gemma-2-9b-it'') prefixes" by code_simp
  have 3: "\<not> contains ''google/gemma-2-9b-it'' '':free''" by code_simp
  have 4: "\<not> startswith ''google/gemma-2-9b-it'' ''openrouter/''" by code_simp
  have 5: "format_model_for_router ''google/gemma-2-9b-it'' = ''openrouter:google/gemma-2-9b-it:free''"
    by code_simp
  from format_normalize_round_trip[OF 1 2 3 4] 1 2 3 4 5 show ?thesis by blast
qed

theorem format_normalize_counterexample:
  "\<not> list_ex (startswith ''openrouter/auto'') prefixes
   \<and> \<not> contains ''openrouter/auto'' '':free''
   \<and> normalize_model_id (format_model_for_router ''openrouter/auto'') = ''auto''
   \<and> normalize_model_id ''openrouter/auto'' = ''openrouter/auto''
   \<and> \<not> list_ex (startswith '' a/b'') prefixes
   \<and> \<not> contains '' a/b'' '':free''
   \<and> normalize_model_id (format_model_for_router '' a/b'') = '' a/b''
   \<and> normalize_model_id '' a/b'' = ''a/b''"
  by code_simp

section \<open>Ranking\<close>

lemma sort_reverse_mset: "mset (sort_reverse key xs) = mset xs"
  by (simp add: sort_reverse_def)

lemma sort_reverse_sorted: "sorted_wrt (\<lambda>a b. key a \<ge> key b) (sort_reverse key xs)"
proof -
  have "sorted (map key (sort_key key (rev xs)))" by (rule sorted_sort_key)
  then have "sorted_wrt (\<lambda>a b. key a \<le> key b) (sort_key key (rev xs))"
    by (simp add: sorted_map)
  then show ?thesis by (simp add: sort_reverse_def sorted_wrt_rev)
qed

lemma sort_reverse_stable:
  "filter (\<lambda>x. key x = k) (sort_reverse key xs) = filter (\<lambda>x. key x = k) xs"
proof -
  have "filter (\<lambda>x. key x = k) (sort_reverse key xs)
          = rev (filter (\<lambda>x. key x = k) (sort_key key (rev xs)))"
    by (simp add: sort_reverse_def rev_filter)
  also have "\<dots> = rev (filter (\<lambda>x. key x = k) (rev xs))"
    by (simp only: sort_key_stable)
  also have "\<dots> = filter (\<lambda>x. key x = k) xs"
    by (simp add: rev_filter[symmetric])
  finally show ?thesis .
qed

text \<open>
  Claim C7 (ranking stability). The ranker returns the input entries, each paired with
  its score, in descending order of score, and the entries of any one score stand in the
  output in the order they have in the input.
\<close>

theorem rank_free_models_stable:
  "mset (rank_free_models calculate_model_score models)
     = mset (map (\<lambda>m. (m, calculate_model_score m)) models)
   \<and> sorted_wrt (\<lambda>a b. snd a \<ge> snd b) (rank_free_models calculate_model_score models)
   \<and> filter (\<lambda>e. snd e = s) (rank_free_models calculate_model_score models)
     = filter (\<lambda>e. snd e = s) (map (\<lambda>m. (m, calculate_model_score m)) models)"
  unfolding rank_free_models_def
  using sort_reverse_mset[of snd] sort_reverse_sorted[of snd] sort_reverse_stable[of snd]
  by blast

section \<open>Classification\<close>

text \<open>
  Claim C5 (classification scenario), as amended. The catalog entry with identifier
  \<open>meta-llama/llama-3.1-8b\<close> and context length 131072 is classified into tier \<open>easy\<close>,
  whatever its score: its short name holds \<open>8b\<close>, so the rule for small models decides
  before the rule on the context length is reached.
\<close>

theorem llama_8b_is_easy:
  "categorize_model (\<lparr>model_id = ''meta-llama/llama-3.1-8b'', context_length = 131072\<rparr>, score)
     = Easy"
  by (simp add: categorize_model_def any_in_def startswith_def lower_def lower_char_def
      upper_chars_def lower_chars_def)

theorem llama_8b_hard_counterexample:
  "\<not> (\<exists>score. categorize_model
          (\<lparr>model_id = ''meta-llama/llama-3.1-8b'', context_length = 131072\<rparr>, score) = Hard)"
  by (simp add: categorize_model_def any_in_def startswith_def lower_def lower_char_def
      upper_chars_def lower_chars_def)


section \<open>The rewriter's scan for the end of a tier\<close>

lemma find_tier_end_shift:
  "find_tier_end (j + k) (e + k) ls = find_tier_end j e ls + k"
  by (induction ls arbitrary: j e) (auto simp flip: add_Suc)

lemma find_tier_end_Cons:
  "find_tier_end 0 0 (l # ls) =
     (if strip l = [] then (if ls = [] then 0 else Suc (find_tier_end 0 0 ls))
      else if leaves_tier l then 0
      else Suc (find_tier_end 0 0 ls))"
proof -
  have a: "find_tier_end (Suc 0) (Suc 0) ls = Suc (find_tier_end 0 0 ls)"
    using find_tier_end_shift[of 0 1 0 ls] by simp
  have b: "ls \<noteq> [] \<Longrightarrow> find_tier_end (Suc 0) 0 ls = find_tier_end (Suc 0) (Suc 0) ls"
    by (cases ls) auto
  show ?thesis using a b by auto
qed

lemma find_tier_end_stops: "stops (drop (find_tier_end 0 0 ls) ls)"
proof (induction ls)
  case Nil
  then show ?case by (simp add: stops_def)
next
  case (Cons l ls)
  then show ?case
    by (auto simp: find_tier_end_Cons stops_def ends_body_def simp del: find_tier_end.simps(2))
qed

lemma find_tier_end_inert:
  assumes "\<forall>b \<in> set bs. strip b \<noteq> [] \<and> \<not> leaves_tier b" "stops r"
  shows "find_tier_end 0 0 (bs @ r) = length bs"
  using assms(1)
proof (induction bs)
  case Nil
  from assms(2) show ?case
    by (auto simp: stops_def ends_body_def find_tier_end_Cons simp del: find_tier_end.simps(2))
next
  case (Cons b bs)
  then show ?case
    by (auto simp: find_tier_end_Cons simp del: find_tier_end.simps(2))
qed

section \<open>Tier start lines and kept lines\<close>

lemma tier_match_Some: "tier_match s = Some t \<Longrightarrow> re_match_tier t s"
  unfolding tier_match_def by (auto dest: find_Some_iff[THEN iffD1])

lemma split_on_not_Nil: "split_on c s \<noteq> []"
  by (induction s) (auto split: list.splits)

lemma re_match_tier_key:
  assumes "re_match_tier t s"
  shows "hd (split_on CHR '':'' s) = tier_name t"
proof -
  have h: "hd (split_on CHR '':'' (n @ CHR '':'' # r)) = n" if "CHR '':'' \<notin> set n" for n r
    using that by (induction n) (auto split: list.splits simp: split_on_not_Nil)
  from assms have "take (length (tier_name t @ '':'')) s = tier_name t @ '':''"
    by (simp add: re_match_tier_def startswith_def)
  then have "s = tier_name t @ CHR '':'' # drop (length (tier_name t @ '':'')) s"
    by (metis append_take_drop_id append.assoc append_Cons append_Nil)
  moreover have "CHR '':'' \<notin> set (tier_name t)" by (cases t) auto
  ultimately show ?thesis using h by metis
qed

lemma ends_body_no_tier: "ends_body l \<Longrightarrow> tier_match (strip l) = None"
proof (rule ccontr)
  assume e: "ends_body l" and "tier_match (strip l) \<noteq> None"
  then obtain t where "tier_match (strip l) = Some t" by auto
  then have "hd (split_on CHR '':'' (strip l)) = tier_name t"
    by (intro re_match_tier_key tier_match_Some)
  moreover have "tier_name t \<in> set (map tier_name all_tiers)"
    by (cases t) (auto simp: all_tiers_def)
  ultimately show False using e by (simp add: ends_body_def leaves_tier_def Let_def)
qed

lemma tier_match_Nil: "tier_match [] = None"
  by (simp add: tier_match_def all_tiers_def re_match_tier_def startswith_def)

lemma save_lines_with_merged:
  "save_lines merged lines = with_merged merged (save_lines (\<lambda>t. []) lines)"
proof (induction lines rule: length_induct)
  case (1 lines)
  show ?case
  proof (cases lines)
    case Nil
    then show ?thesis by (simp add: with_merged_def)
  next
    case (Cons l rest)
    have "length (drop (find_tier_end 0 0 rest) rest) < length lines"
      "length rest < length lines" using Cons by auto
    with 1 have
      a: "save_lines merged (drop (find_tier_end 0 0 rest) rest)
          = with_merged merged (save_lines (\<lambda>t. []) (drop (find_tier_end 0 0 rest) rest))"
      and b: "save_lines merged rest = with_merged merged (save_lines (\<lambda>t. []) rest)"
      by blast+
    show ?thesis using Cons a b
      by (cases "tier_match (strip l)") (auto simp: with_merged_def)
  qed
qed

section \<open>Stripping\<close>

lemma rstrip_prefix: "rstrip s @ rev (takeWhile is_space (rev s)) = s"
proof -
  have "rev (takeWhile is_space (rev s) @ dropWhile is_space (rev s)) = s" by simp
  then show ?thesis unfolding rstrip_def rev_append .
qed

lemma rstrip_last: "rstrip s \<noteq> [] \<Longrightarrow> \<not> is_space (last (rstrip s))"
  unfolding rstrip_def using hd_dropWhile[of is_space "rev s"] by (simp add: last_rev)

lemma rstrip_hd: "rstrip s \<noteq> [] \<Longrightarrow> hd (rstrip s) = hd s"
  using rstrip_prefix[of s] by (metis hd_append2)

lemma lstrip_hd: "lstrip s \<noteq> [] \<Longrightarrow> \<not> is_space (hd (lstrip s))"
  unfolding lstrip_def by (rule hd_dropWhile)

lemma strip_ends:
  assumes "strip s \<noteq> []"
  shows "\<not> is_space (hd (strip s))" "\<not> is_space (last (strip s))"
proof -
  from assms have n: "lstrip s \<noteq> []" by (auto simp: strip_def rstrip_def)
  show "\<not> is_space (hd (strip s))"
    using assms rstrip_hd[of "lstrip s"] lstrip_hd[OF n] by (simp add: strip_def)
  show "\<not> is_space (last (strip s))"
    using assms rstrip_last[of "lstrip s"] by (simp add: strip_def)
qed

lemma strip_Nil: "strip [] = []"
  by (simp add: strip_def lstrip_def rstrip_def)

lemma strip_strip: "strip (strip s) = strip s"
proof (cases "strip s = []")
  case True
  then show ?thesis by (simp only: strip_Nil)
next
  case False
  then show ?thesis by (intro strip_unchanged strip_ends)
qed

lemma set_strip: "set (strip s) \<subseteq> set s"
proof -
  have "set (rstrip t) \<subseteq> set t" for t
    unfolding rstrip_def using set_dropWhileD[of _ is_space "rev t"] by auto
  moreover have "set (lstrip s) \<subseteq> set s"
    unfolding lstrip_def using set_dropWhileD[of _ is_space s] by auto
  ultimately show ?thesis unfolding strip_def by blast
qed

lemma strip_Nil_iff: "strip s = [] \<longleftrightarrow> (\<forall>c \<in> set s. is_space c)"
proof
  assume "strip s = []"
  then have "lstrip s = []"
    using rstrip_prefix[of "lstrip s"] lstrip_hd[of s]
    by (cases "lstrip s") (auto simp: strip_def rstrip_def dest: hd_in_set)
  then show "\<forall>c \<in> set s. is_space c" by (simp add: lstrip_def)
next
  assume "\<forall>c \<in> set s. is_space c"
  then have "lstrip s = []" by (simp add: lstrip_def)
  then show "strip s = []" by (simp add: strip_def rstrip_def)
qed

lemma strip_indented:
  assumes "\<forall>c \<in> set w. is_space c" "strip x = x" "x \<noteq> []"
  shows "strip (w @ x) = x" "lstrip (w @ x) = x"
proof -
  from assms(2,3) have e: "\<not> is_space (hd x)" "\<not> is_space (last x)"
    using strip_ends[of x] by simp_all
  have "dropWhile is_space x = x" using e(1) assms(3) by (cases x) auto
  then show l: "lstrip (w @ x) = x" using assms(1) by (simp add: lstrip_def)
  show "strip (w @ x) = x" using assms(2) l by (simp add: strip_def lstrip_def \<open>dropWhile is_space x = x\<close>)
qed

lemma suffix_last: "suffix g s \<Longrightarrow> g \<noteq> [] \<Longrightarrow> last g = last s"
  by (auto simp: suffix_def)

lemma suffix_strip_nonempty:
  assumes "suffix g (strip l)" "g \<noteq> []"
  shows "strip g \<noteq> []"
proof
  assume "strip g = []"
  then have "is_space (last g)" using assms(2) by (simp add: strip_Nil_iff)
  moreover have "strip l \<noteq> []" using assms by (auto simp: suffix_def)
  ultimately show False using strip_ends(2)[of l] suffix_last[OF assms] by simp
qed

section \<open>Entries of one line\<close>

lemma match_after_hash_suffix:
  "match_after_hash r = Some g \<Longrightarrow> suffix g r \<and> g \<noteq> []"
proof -
  assume a: "match_after_hash r = Some g"
  have d: "suffix (dropWhile is_space x) x" for x :: string by (rule suffix_dropWhile)
  have l: "x \<noteq> [] \<Longrightarrow> suffix [last x] x" for x :: string
    by (metis append_butlast_last_id suffixI)
  show ?thesis
  proof (cases "dropWhile is_space r")
    case Nil
    with a l show ?thesis by (auto simp: match_after_hash_def split: if_splits)
  next
    case (Cons c r')
    have sr': "suffix r' r" using d[of r] Cons by (metis suffix_ConsD)
    have sc: "suffix (c # r') r" using d[of r] Cons by simp
    from a Cons consider "g = dropWhile is_space r'" "g \<noteq> []"
      | "g = [last r']" "r' \<noteq> []" | "g = c # r'"
      by (auto simp: match_after_hash_def split: if_splits)
    then show ?thesis
    proof cases
      case 1
      then show ?thesis using d[of r'] sr' by (auto intro: suffix_order.trans)
    next
      case 2
      then show ?thesis using l[of r'] sr' by (auto intro: suffix_order.trans)
    next
      case 3
      then show ?thesis using sc by simp
    qed
  qed
qed

lemma re_search_comment_suffix:
  "re_search_comment s = Some g \<Longrightarrow> suffix g s \<and> g \<noteq> []"
proof -
  assume a: "re_search_comment s = Some g"
  then obtain h r where hr: "dropWhile (\<lambda>c. c \<noteq> CHR ''#'') s = h # r" "match_after_hash r = Some g"
    by (auto simp: re_search_comment_def split: list.splits)
  have "suffix (h # r) s" using suffix_dropWhile[of "\<lambda>c. c \<noteq> CHR ''#''" s] hr(1) by simp
  then have "suffix r s" by (rule suffix_ConsD)
  with match_after_hash_suffix[OF hr(2)] show ?thesis by (auto intro: suffix_order.trans)
qed

lemma parse_entry_text:
  assumes "e \<in> set (parse_entry (strip l))"
  shows "fst e \<noteq> [] \<and> strip (fst e) = fst e \<and> set (fst e) \<subseteq> set l"
proof -
  have main: "strip g \<noteq> [] \<and> strip (strip g) = strip g \<and> set (strip g) \<subseteq> set l"
    if "suffix g (strip l)" "g \<noteq> []" for g
  proof -
    have "set g \<subseteq> set (strip l)" using that(1) by (auto simp: suffix_def)
    then have "set (strip g) \<subseteq> set l" using set_strip[of g] set_strip[of l] by blast
    then show ?thesis using suffix_strip_nonempty[OF that] strip_strip by simp
  qed
  have "(\<exists>g. re_search_comment (strip l) = Some g \<and> e = (strip g, True))
        \<or> (startswith (strip l) ''- '' \<and> e = (strip (drop 2 (strip l)), False))"
  proof (cases "re_search_comment (strip l)")
    case None
    with assms show ?thesis by (auto simp: parse_entry_def split: if_splits)
  next
    case (Some g)
    with assms show ?thesis by (auto simp: parse_entry_def split: if_splits)
  qed
  then consider g where "re_search_comment (strip l) = Some g" "e = (strip g, True)"
    | "startswith (strip l) ''- ''" "e = (strip (drop 2 (strip l)), False)"
    by blast
  then show ?thesis
  proof cases
    case 1
    then show ?thesis using main re_search_comment_suffix by auto
  next
    case 2
    have ne: "strip l \<noteq> []" using 2(1) by (auto simp: startswith_def)
    have "drop 2 (strip l) \<noteq> []"
    proof
      assume "drop 2 (strip l) = []"
      then have "strip l = ''- ''" using 2(1) by (simp add: startswith_def)
      then show False using strip_ends(2)[OF ne] by (simp add: is_space_def)
    qed
    then show ?thesis using main[of "drop 2 (strip l)"] 2(2) by (simp add: suffix_drop)
  qed
qed

lemma parse_entry_commented:
  assumes "m \<noteq> []" "strip m = m"
  shows "parse_entry (strip (''  # - '' @ m)) = [(m, True)]"
proof -
  have sp: "\<forall>c \<in> set ''  ''. is_space c" by (simp add: is_space_def)
  have x: "strip (''# - '' @ m) = ''# - '' @ m"
    using assms strip_ends(2)[of m] by (intro strip_unchanged) (auto simp: is_space_def)
  have s: "strip (''  # - '' @ m) = ''# - '' @ m"
    using strip_indented(1)[OF sp x] by simp
  have d: "dropWhile is_space m = m"
    using strip_ends(1)[of m] assms by (cases m) auto
  have sp1: "is_space (CHR '' '')" and nd: "\<not> is_space (CHR ''-'')"
    by (simp_all add: is_space_def)
  have d1: "dropWhile is_space ('' - '' @ m) = CHR ''-'' # CHR '' '' # m"
    by (simp add: sp1 nd)
  have d2: "dropWhile is_space (CHR '' '' # m) = m" by (simp add: sp1 d)
  have "match_after_hash ('' - '' @ m) = Some m"
    unfolding match_after_hash_def d1 list.case d2 using assms(1) by simp
  then have "re_search_comment (''# - '' @ m) = Some m"
    by (simp add: re_search_comment_def)
  then show ?thesis unfolding s by (simp add: parse_entry_def startswith_def assms)
qed

lemma parse_entry_active:
  assumes "m \<noteq> []" "strip m = m" "\<not> startswith m ''#''"
  shows "parse_entry (strip (''  - '' @ m)) = [(m, False)]"
proof -
  have sp: "\<forall>c \<in> set ''  ''. is_space c" by (simp add: is_space_def)
  have x: "strip (''- '' @ m) = ''- '' @ m"
    using assms strip_ends(2)[of m] by (intro strip_unchanged) (auto simp: is_space_def)
  have s: "strip (''  - '' @ m) = ''- '' @ m"
    using strip_indented(1)[OF sp x] by simp
  have "\<not> startswith (''- '' @ m) ''- #''"
    using assms(1,3) by (cases m) (auto simp: startswith_def)
  then show ?thesis unfolding s by (simp add: parse_entry_def startswith_def assms)
qed

section \<open>Lines written by the merger\<close>

lemma entry_line_strip:
  assumes "well_formed_text (fst e)"
  shows "strip (entry_line e) = (if snd e then ''# - '' else ''- '') @ fst e"
    and "lstrip (entry_line e) = (if snd e then ''# - '' else ''- '') @ fst e"
proof -
  let ?x = "(if snd e then ''# - '' else ''- '') @ fst e"
  have sp: "\<forall>c \<in> set ''  ''. is_space c" by (simp add: is_space_def)
  have x: "strip ?x = ?x"
    using assms strip_ends(2)[of "fst e"]
    by (intro strip_unchanged) (auto simp: is_space_def well_formed_text_def)
  have e: "entry_line e = ''  '' @ ?x" by (simp add: entry_line_def)
  show "strip (entry_line e) = ?x" unfolding e by (rule strip_indented(1)[OF sp x]) simp
  show "lstrip (entry_line e) = ?x" unfolding e by (rule strip_indented(2)[OF sp x]) simp
qed

lemma entry_line_not_blank: "well_formed_text (fst e) \<Longrightarrow> strip (entry_line e) \<noteq> []"
  by (simp add: entry_line_strip(1))

lemma entry_line_indent: "well_formed_text (fst e) \<Longrightarrow> indent_of (entry_line e) = 2"
  by (simp add: indent_of_def entry_line_strip(2)) (simp add: entry_line_def)

lemma entry_line_stays:
  assumes "well_formed_text (fst e)"
  shows "\<not> leaves_tier (entry_line e)" "\<not> exits_tier keys t (entry_line e)"
  using entry_line_indent[OF assms] by (simp_all add: leaves_tier_def exits_tier_def Let_def)

lemma entry_line_no_tier:
  assumes "well_formed_text (fst e)"
  shows "\<not> re_match_tier t (strip (entry_line e))"
  unfolding entry_line_strip(1)[OF assms]
  by (cases t) (auto simp: re_match_tier_def startswith_def)

lemma entry_line_reparse:
  assumes "reparsable e"
  shows "parse_entry (strip (entry_line e)) = [e]"
proof (cases "snd e")
  case True
  then have "entry_line e = ''  # - '' @ fst e" "e = (fst e, True)"
    by (simp_all add: entry_line_def prod_eq_iff)
  then show ?thesis
    using assms parse_entry_commented[of "fst e"]
    by (metis reparsable_def well_formed_text_def)
next
  case False
  then have "entry_line e = ''  - '' @ fst e" "e = (fst e, False)"
    by (simp_all add: entry_line_def prod_eq_iff)
  then show ?thesis
    using assms False parse_entry_active[of "fst e"]
    by (metis reparsable_def well_formed_text_def)
qed

lemma entry_lines_reparse:
  "\<forall>e \<in> set es. reparsable e \<Longrightarrow>
     concat (map (\<lambda>b. parse_entry (strip b)) (map entry_line es)) = es"
  by (induction es) (auto simp: entry_line_reparse)

section \<open>Parsing the rewritten lines\<close>

lemma tier_match_None: "tier_match s = None \<Longrightarrow> \<not> re_match_tier t s"
proof -
  assume "tier_match s = None"
  then have "\<forall>t \<in> set all_tiers. \<not> re_match_tier t s"
    by (simp add: tier_match_def find_None_iff)
  moreover have "t \<in> set all_tiers" by (cases t) (simp_all add: all_tiers_def)
  ultimately show ?thesis by blast
qed

lemma re_match_tier_unique:
  assumes "re_match_tier t s" "re_match_tier t' s"
  shows "t = t'"
proof -
  have "tier_name t = tier_name t'"
    using re_match_tier_key[OF assms(1)] re_match_tier_key[OF assms(2)] by simp
  then show ?thesis by (cases t; cases t') simp_all
qed

lemma tier_match_other:
  "tier_match s = Some t' \<Longrightarrow> t \<noteq> t' \<Longrightarrow> \<not> re_match_tier t s"
  using re_match_tier_unique tier_match_Some by blast

lemma ends_body_exits:
  assumes "ends_body l"
  shows "exits_tier keys t l"
proof -
  have "tier_name t \<in> set (map tier_name all_tiers)"
    by (cases t) (simp_all add: all_tiers_def)
  with assms show ?thesis
    by (auto simp: ends_body_def leaves_tier_def exits_tier_def Let_def)
qed

lemma parse_lines_outside:
  "\<forall>b \<in> set bs. \<not> re_match_tier t (strip b) \<Longrightarrow>
     parse_lines keys t False (bs @ r) = parse_lines keys t False r"
  by (induction bs) auto

lemma parse_lines_inside:
  "\<forall>b \<in> set bs. \<not> re_match_tier t (strip b) \<and> \<not> exits_tier keys t b \<Longrightarrow>
     parse_lines keys t True (bs @ r)
       = concat (map (\<lambda>b. parse_entry (strip b)) bs) @ parse_lines keys t True r"
  by (induction bs) auto

lemma with_merged_Cons:
  "with_merged merged (l # ks) =
     (case tier_match (strip l) of Some t \<Rightarrow> l # merged t | None \<Rightarrow> [l]) @ with_merged merged ks"
  by (simp add: with_merged_def)

lemma with_merged_stops: "stops ks \<Longrightarrow> stops (with_merged merged ks)"
  unfolding stops_def
  by (auto simp: with_merged_def tier_match_Nil ends_body_no_tier)

lemma parse_lines_stops:
  assumes "stops r"
  shows "parse_lines keys t True r = []"
proof -
  from assms consider "r = []" | b where "r = [b]" "strip b = []"
    | x r' where "r = x # r'" "ends_body x"
    unfolding stops_def by blast
  then show ?thesis
  proof cases
    case 1
    then show ?thesis by simp
  next
    case 2
    then show ?thesis
      by (simp add: re_match_tier_def startswith_def exits_tier_def parse_entry_def)
  next
    case 3
    then show ?thesis
      using ends_body_exits[OF 3(2)] tier_match_None[OF ends_body_no_tier[OF 3(2)]]
      by simp
  qed
qed

lemma parse_rewritten:
  assumes blocks: "\<forall>t' b. b \<in> set (merged t') \<longrightarrow>
      (\<forall>u. \<not> re_match_tier u (strip b)) \<and> (\<forall>u. \<not> exits_tier keys u b)"
    and sep: "separated ks"
  shows "parse_lines keys t False (with_merged merged ks)
           = (if t \<in> tier_starts ks then concat (map (\<lambda>b. parse_entry (strip b)) (merged t))
              else [])"
  using sep
proof (induction ks)
  case Nil
  then show ?case by (simp add: with_merged_def tier_starts_def)
next
  case (Cons l ks)
  then have ih: "parse_lines keys t False (with_merged merged ks)
      = (if t \<in> tier_starts ks then concat (map (\<lambda>b. parse_entry (strip b)) (merged t))
         else [])"
    by simp
  show ?case
  proof (cases "tier_match (strip l)")
    case None
    then have "tier_starts (l # ks) = tier_starts ks" by (auto simp: tier_starts_def)
    then show ?thesis
      using None ih tier_match_None[OF None, of t] by (simp add: with_merged_Cons)
  next
    case (Some t')
    from Cons.prems Some have st: "stops ks" by simp
    show ?thesis
    proof (cases "t' = t")
      case True
      have m: "re_match_tier t (strip l)" using Some True tier_match_Some by blast
      have "parse_lines keys t True (merged t @ with_merged merged ks)
              = concat (map (\<lambda>b. parse_entry (strip b)) (merged t))
                @ parse_lines keys t True (with_merged merged ks)"
        using blocks by (intro parse_lines_inside) blast
      moreover have "parse_lines keys t True (with_merged merged ks) = []"
        using st by (intro parse_lines_stops with_merged_stops)
      moreover have "t \<in> tier_starts (l # ks)" using Some True by (auto simp: tier_starts_def)
      ultimately show ?thesis using Some True m by (simp add: with_merged_Cons)
    next
      case False
      have n: "\<not> re_match_tier t (strip l)" using tier_match_other[OF Some, of t] False by auto
      have "parse_lines keys t False (merged t' @ with_merged merged ks)
              = parse_lines keys t False (with_merged merged ks)"
        using blocks by (intro parse_lines_outside) blast
      moreover have "t \<in> tier_starts (l # ks) \<longleftrightarrow> t \<in> tier_starts ks"
        using Some False by (auto simp: tier_starts_def)
      ultimately show ?thesis using Some n ih by (simp add: with_merged_Cons)
    qed
  qed
qed

section \<open>Rewriting the rewritten lines\<close>

lemma save_rewritten:
  assumes blocks: "\<forall>t b. b \<in> set (merged t) \<longrightarrow> strip b \<noteq> [] \<and> \<not> leaves_tier b"
    and sep: "separated ks"
  shows "save_lines merged' (with_merged merged ks) = with_merged merged' ks"
  using sep
proof (induction ks)
  case Nil
  then show ?case by (simp add: with_merged_def)
next
  case (Cons l ks)
  then have ih: "save_lines merged' (with_merged merged ks) = with_merged merged' ks" by simp
  show ?case
  proof (cases "tier_match (strip l)")
    case None
    then show ?thesis using ih by (simp add: with_merged_Cons)
  next
    case (Some t)
    from Cons.prems Some have "stops (with_merged merged ks)"
      by (auto intro: with_merged_stops)
    then have "find_tier_end 0 0 (merged t @ with_merged merged ks) = length (merged t)"
      using blocks by (intro find_tier_end_inert) blast+
    then show ?thesis using Some ih by (simp add: with_merged_Cons)
  qed
qed

lemma with_merged_cong:
  "\<forall>t \<in> tier_starts ks. merged t = merged' t \<Longrightarrow> with_merged merged ks = with_merged merged' ks"
  unfolding with_merged_def tier_starts_def
  by (intro arg_cong[of _ _ concat] map_cong) (auto split: option.splits)

lemma stops_kept: "stops r \<Longrightarrow> stops (save_lines (\<lambda>t. []) r)"
  unfolding stops_def by (auto simp: tier_match_Nil ends_body_no_tier)

lemma kept_separated: "separated (save_lines (\<lambda>t. []) lines)"
proof (induction lines rule: length_induct)
  case (1 lines)
  show ?case
  proof (cases lines)
    case Nil
    then show ?thesis by simp
  next
    case (Cons l rest)
    define r where "r = drop (find_tier_end 0 0 rest) rest"
    have "length r < length lines" "length rest < length lines"
      using Cons by (auto simp: r_def)
    with 1 have ih: "separated (save_lines (\<lambda>t. []) r)" "separated (save_lines (\<lambda>t. []) rest)"
      by blast+
    have "stops (save_lines (\<lambda>t. []) r)"
      unfolding r_def by (intro stops_kept find_tier_end_stops)
    then show ?thesis using Cons ih
      by (cases "tier_match (strip l)") (auto simp: r_def)
  qed
qed

lemma kept_subset: "set (save_lines (\<lambda>t. []) lines) \<subseteq> set lines"
proof (induction lines rule: length_induct)
  case (1 lines)
  show ?case
  proof (cases lines)
    case Nil
    then show ?thesis by simp
  next
    case (Cons l rest)
    define r where "r = drop (find_tier_end 0 0 rest) rest"
    have "length r < length lines" "length rest < length lines"
      using Cons by (auto simp: r_def)
    with 1 have ih: "set (save_lines (\<lambda>t. []) r) \<subseteq> set r"
      "set (save_lines (\<lambda>t. []) rest) \<subseteq> set rest"
      by blast+
    have "set r \<subseteq> set rest" unfolding r_def by (rule set_drop_subset)
    then show ?thesis using Cons ih
      by (cases "tier_match (strip l)") (auto simp: r_def)
  qed
qed

section \<open>Idempotence\<close>

lemma merge_reinsert:
  "merge_models_with_comments
     (es @ map (\<lambda>c. (c, False)) (inserted (identities es) cs)) cs
   = merge_models_with_comments es cs"
proof -
  let ?new = "inserted (identities es) cs"
  let ?es' = "es @ map (\<lambda>c. (c, False)) ?new"
  have i: "identities ?es' = identities es \<union> normalize_model_id ` set ?new"
    by (simp add: identities_def image_Un image_image)
  have "normalize_model_id ` set cs \<subseteq> identities ?es'"
    unfolding i using inserted_covers[of _ cs "identities es"] by blast
  then have "inserted (identities ?es') cs = []" by (rule inserted_none)
  then show ?thesis by (simp add: merge_eq_entries)
qed

lemma parse_lines_entries:
  "e \<in> set (parse_lines keys t b ls) \<Longrightarrow> \<exists>l \<in> set ls. e \<in> set (parse_entry (strip l))"
  by (induction ls arbitrary: b) (auto split: if_splits)

lemma update_lines_idempotent:
  fixes lines keys :: "string list" and new_tiers :: "tier \<Rightarrow> string list"
  defines "existing \<equiv> (\<lambda>t. parse_lines keys t False lines)"
  defines "merged \<equiv> (\<lambda>t. merge_models_with_comments (existing t) (new_tiers t))"
  defines "written \<equiv> save_lines merged lines"
  assumes cands: "\<forall>t. \<forall>c \<in> set (new_tiers t). well_formed_text c \<and> \<not> startswith c ''#''"
    and actives: "\<forall>t. \<forall>e \<in> set (existing t). snd e \<or> \<not> startswith (fst e) ''#''"
  shows "save_lines (\<lambda>t. merge_models_with_comments (parse_lines keys' t False written)
                           (new_tiers t)) written = written"
proof -
  define ks where "ks = save_lines (\<lambda>t. []) lines"
  define ents where
    "ents = (\<lambda>t. existing t @ map (\<lambda>c. (c, False)) (inserted (identities (existing t)) (new_tiers t)))"
  define merged' where
    "merged' = (\<lambda>t. merge_models_with_comments (parse_lines keys' t False written) (new_tiers t))"
  have w: "written = with_merged merged ks"
    unfolding written_def ks_def by (rule save_lines_with_merged)
  have sep: "separated ks" unfolding ks_def by (rule kept_separated)
  have m: "merged t = map entry_line (ents t)" for t
    unfolding merged_def ents_def by (rule merge_eq_entries)
  have rp: "reparsable e" if "e \<in> set (ents t)" for e t
  proof -
    from that consider "e \<in> set (existing t)"
      | c where "c \<in> set (new_tiers t)" "e = (c, False)"
      unfolding ents_def using inserted_subset by fastforce
    then show ?thesis
    proof cases
      case 1
      then obtain l where "e \<in> set (parse_entry (strip l))"
        unfolding existing_def using parse_lines_entries by blast
      then have "well_formed_text (fst e)"
        using parse_entry_text by (simp add: well_formed_text_def)
      then show ?thesis using actives 1 by (auto simp: reparsable_def)
    next
      case 2
      then show ?thesis using cands by (auto simp: reparsable_def)
    qed
  qed
  have wf: "well_formed_text (fst e)" if "e \<in> set (ents t)" for e t
    using rp[OF that] by (simp add: reparsable_def)
  have b1: "\<forall>t b. b \<in> set (merged t) \<longrightarrow>
      (\<forall>u. \<not> re_match_tier u (strip b)) \<and> (\<forall>u. \<not> exits_tier keys' u b)"
    unfolding m using wf entry_line_no_tier entry_line_stays(2) by auto
  have b2: "\<forall>t b. b \<in> set (merged t) \<longrightarrow> strip b \<noteq> [] \<and> \<not> leaves_tier b"
    unfolding m using wf entry_line_not_blank entry_line_stays(1) by auto
  have same: "merged' t = merged t" if "t \<in> tier_starts ks" for t
  proof -
    have "parse_lines keys' t False written
            = concat (map (\<lambda>b. parse_entry (strip b)) (merged t))"
      unfolding w using parse_rewritten[OF b1 sep, of t] that by simp
    also have "\<dots> = ents t"
      unfolding m using rp by (intro entry_lines_reparse) blast
    finally have "merged' t = merge_models_with_comments (ents t) (new_tiers t)"
      by (simp add: merged'_def)
    also have "\<dots> = merged t"
      unfolding ents_def merged_def by (rule merge_reinsert)
    finally show ?thesis .
  qed
  have "save_lines merged' written = with_merged merged' ks"
    unfolding w using b2 sep by (rule save_rewritten)
  also have "\<dots> = with_merged merged ks"
    using same by (intro with_merged_cong) blast
  finally show ?thesis unfolding merged'_def w .
qed

section \<open>Files as text\<close>

lemma split_on_free: "l \<in> set (split_on c s) \<Longrightarrow> c \<notin> set l"
  by (induction s arbitrary: l) (auto split: if_splits list.splits)

lemma split_on_free_id: "c \<notin> set l \<Longrightarrow> split_on c l = [l]"
  by (induction l) auto

lemma split_on_append:
  "c \<notin> set l \<Longrightarrow> split_on c (l @ c # s) = l # split_on c s"
  by (induction l) auto

lemma split_join:
  "ls \<noteq> [] \<Longrightarrow> \<forall>l \<in> set ls. c \<notin> set l \<Longrightarrow> split_on c (join_on c ls) = ls"
proof (induction ls rule: join_on.induct)
  case (1 sep)
  then show ?case by simp
next
  case (2 sep p)
  then show ?case by (simp add: split_on_free_id)
next
  case (3 sep p q ps)
  then show ?case by (simp add: split_on_append)
qed

lemma save_lines_not_Nil: "lines \<noteq> [] \<Longrightarrow> save_lines merged lines \<noteq> []"
  by (cases lines) (auto split: option.splits)

lemma with_merged_set:
  "set (with_merged merged ks) \<subseteq> set ks \<union> (\<Union>t. set (merged t))"
  unfolding with_merged_def by (auto split: option.splits)

lemma entry_line_free:
  "c \<noteq> CHR '' '' \<Longrightarrow> c \<noteq> CHR ''#'' \<Longrightarrow> c \<noteq> CHR ''-'' \<Longrightarrow> c \<notin> set (fst e)
     \<Longrightarrow> c \<notin> set (entry_line e)"
  by (auto simp: entry_line_def)


lemma written_lines_free:
  fixes lines keys :: "string list" and new_tiers :: "tier \<Rightarrow> string list"
  assumes "c \<noteq> CHR '' ''" "c \<noteq> CHR ''#''" "c \<noteq> CHR ''-''"
    and "\<forall>l \<in> set lines. c \<notin> set l"
    and "\<forall>t. \<forall>x \<in> set (new_tiers t). c \<notin> set x"
  shows "\<forall>l \<in> set (save_lines (\<lambda>t. merge_models_with_comments
            (parse_lines keys t False lines) (new_tiers t)) lines). c \<notin> set l"
proof
  fix l
  let ?merged = "\<lambda>t. merge_models_with_comments (parse_lines keys t False lines) (new_tiers t)"
  assume "l \<in> set (save_lines ?merged lines)"
  then have "l \<in> set (with_merged ?merged (save_lines (\<lambda>t. []) lines))"
    using save_lines_with_merged[of ?merged lines] by simp
  then consider "l \<in> set lines" | t where "l \<in> set (?merged t)"
    using with_merged_set[of ?merged] kept_subset[of lines] by blast
  then show "c \<notin> set l"
  proof cases
    case 1
    then show ?thesis using assms(4) by blast
  next
    case 2
    then obtain e where e: "l = entry_line e"
      "e \<in> set (parse_lines keys t False lines)
       \<or> (\<exists>x \<in> set (new_tiers t). e = (x, False))"
      unfolding merge_eq_entries using inserted_subset by fastforce
    have "c \<notin> set (fst e)"
    proof (cases "e \<in> set (parse_lines keys t False lines)")
      case True
      then obtain x where "x \<in> set lines" "e \<in> set (parse_entry (strip x))"
        using parse_lines_entries by blast
      then show ?thesis using parse_entry_text[of e x] assms(4) by blast
    next
      case False
      then show ?thesis using e(2) assms(5) by auto
    qed
    then show ?thesis unfolding e(1) using assms(1-3) by (intro entry_line_free)
  qed
qed

section \<open>Reading in text mode\<close>

lemma universal_newlines_free: "CHR 0x0D \<notin> set (universal_newlines s)"
  by (induction s rule: universal_newlines.induct) (auto split: list.splits)

lemma universal_newlines_id: "CHR 0x0D \<notin> set s \<Longrightarrow> universal_newlines s = s"
  by (induction s) auto

lemma split_on_subset: "l \<in> set (split_on c s) \<Longrightarrow> set l \<subseteq> set s"
proof (induction s arbitrary: l)
  case Nil
  then show ?case by simp
next
  case (Cons a s)
  obtain p ps where ps: "split_on c s = p # ps"
    using split_on_not_Nil[of c s] by (cases "split_on c s") auto
  have ih: "set p \<subseteq> set s" "\<And>x. x \<in> set ps \<Longrightarrow> set x \<subseteq> set s"
    using Cons.IH ps by auto
  from Cons.prems ps have "l = [] \<or> l = p \<or> l = a # p \<or> l \<in> set ps"
    by (auto split: if_splits)
  then show ?case using ih by auto
qed

lemma join_on_free:
  "c \<noteq> sep \<Longrightarrow> \<forall>l \<in> set ls. c \<notin> set l \<Longrightarrow> c \<notin> set (join_on sep ls)"
  by (induction ls rule: join_on.induct) auto

text \<open>
  Claim C1 (merge idempotence), as amended. When no active entry that the parser reads
  from the file has a text beginning with \<open>#\<close>, and every candidate is non-empty, has
  no white space at either end, holds no line feed and no carriage return and does not
  begin with \<open>#\<close>, a second run of the pipeline (parse, merge, rewrite) with the same
  candidates on the file that the first run wrote writes that file again, character for
  character, whatever keys the YAML reader reports in either run.
\<close>

theorem update_idempotent:
  assumes "\<forall>t. \<forall>c \<in> set (new_tiers t).
             c \<noteq> [] \<and> strip c = c \<and> CHR 0x0A \<notin> set c \<and> CHR 0x0D \<notin> set c
             \<and> \<not> startswith c ''#''"
    and "\<forall>t. \<forall>e \<in> set (parse_tiers keys (universal_newlines stored) t).
             \<not> snd e \<longrightarrow> \<not> startswith (fst e) ''#''"
  shows "update_tier_bodies keys' new_tiers (update_tier_bodies keys new_tiers stored)
           = update_tier_bodies keys new_tiers stored"
proof -
  define lines where "lines = split_on CHR 0x0A (universal_newlines stored)"
  define written where
    "written = save_lines (\<lambda>t. merge_models_with_comments
                 (parse_lines keys t False lines) (new_tiers t)) lines"
  have c: "\<forall>t. \<forall>c \<in> set (new_tiers t). well_formed_text c \<and> \<not> startswith c ''#''"
    using assms(1) by (simp add: well_formed_text_def)
  have a: "\<forall>t. \<forall>e \<in> set (parse_lines keys t False lines). snd e \<or> \<not> startswith (fst e) ''#''"
    using assms(2) by (auto simp: parse_tiers_def lines_def)
  have idem: "save_lines (\<lambda>t. merge_models_with_comments (parse_lines keys' t False written)
                 (new_tiers t)) written = written"
    unfolding written_def using c a by (rule update_lines_idempotent)
  have "lines \<noteq> []" unfolding lines_def by (rule split_on_not_Nil)
  then have ne: "written \<noteq> []" unfolding written_def by (rule save_lines_not_Nil)
  have "\<forall>l \<in> set lines. CHR 0x0A \<notin> set l" unfolding lines_def using split_on_free by blast
  then have lf: "\<forall>l \<in> set written. CHR 0x0A \<notin> set l"
    unfolding written_def using assms(1) by (intro written_lines_free) simp_all
  have "\<forall>l \<in> set lines. CHR 0x0D \<notin> set l"
    unfolding lines_def using split_on_subset universal_newlines_free by blast
  then have "\<forall>l \<in> set written. CHR 0x0D \<notin> set l"
    unfolding written_def using assms(1) by (intro written_lines_free) simp_all
  then have "CHR 0x0D \<notin> set (join_on CHR 0x0A written)" by (intro join_on_free) simp_all
  then have rd: "universal_newlines (join_on CHR 0x0A written) = join_on CHR 0x0A written"
    by (rule universal_newlines_id)
  from ne lf have sj: "split_on CHR 0x0A (join_on CHR 0x0A written) = written"
    by (rule split_join)
  have first: "update_tier_bodies keys new_tiers stored = join_on CHR 0x0A written"
    by (simp add: update_tier_bodies_def save_config_with_comments_def parse_tiers_def
        written_def lines_def Let_def)
  have "update_tier_bodies keys' new_tiers (join_on CHR 0x0A written) = join_on CHR 0x0A written"
    by (simp add: update_tier_bodies_def save_config_with_comments_def parse_tiers_def
        Let_def rd sj idem)
  then show ?thesis unfolding first .
qed

theorem update_idempotent_witness:
  "update_tier_bodies [''easy'']
     (\<lambda>t. [''openrouter:old/model:free'', ''openrouter:banned/model:free'',
            ''openrouter:new/model:free'', ''openrouter:openrouter/free:free''])
     (update_tier_bodies [''easy'']
        (\<lambda>t. [''openrouter:old/model:free'', ''openrouter:banned/model:free'',
               ''openrouter:new/model:free'', ''openrouter:openrouter/free:free''])
        (join_on CHR 0x0A
           [''providers:'', ''  openrouter: {}'', ''models:'', ''  easy:'',
            ''    - openrouter:old/model:free'', ''    # - openrouter:banned/model:free'',
            ''    # my note'', '''', ''freeride:'', ''  enabled: true'']))
   = update_tier_bodies [''easy'']
        (\<lambda>t. [''openrouter:old/model:free'', ''openrouter:banned/model:free'',
               ''openrouter:new/model:free'', ''openrouter:openrouter/free:free''])
        (join_on CHR 0x0A
           [''providers:'', ''  openrouter: {}'', ''models:'', ''  easy:'',
            ''    - openrouter:old/model:free'', ''    # - openrouter:banned/model:free'',
            ''    # my note'', '''', ''freeride:'', ''  enabled: true''])
   \<and> update_tier_bodies [''easy'']
        (\<lambda>t. [''openrouter:old/model:free'', ''openrouter:banned/model:free'',
               ''openrouter:new/model:free'', ''openrouter:openrouter/free:free''])
        (join_on CHR 0x0A
           [''providers:'', ''  openrouter: {}'', ''models:'', ''  easy:'',
            ''    - openrouter:old/model:free'', ''    # - openrouter:banned/model:free'',
            ''    # my note'', '''', ''freeride:'', ''  enabled: true''])
     = join_on CHR 0x0A
           [''providers:'', ''  openrouter: {}'', ''models:'', ''  easy:'',
            ''  - openrouter:old/model:free'', ''  # - openrouter:banned/model:free'',
            ''  # - my note'', ''  - openrouter:new/model:free'',
            ''  - openrouter:openrouter/free:free'', ''freeride:'', ''  enabled: true'']"
proof -
  define cs where "cs = [''openrouter:old/model:free'', ''openrouter:banned/model:free'',
               ''openrouter:new/model:free'', ''openrouter:openrouter/free:free'']"
  define stored where "stored = join_on CHR 0x0A
           [''providers:'', ''  openrouter: {}'', ''models:'', ''  easy:'',
            ''    - openrouter:old/model:free'', ''    # - openrouter:banned/model:free'',
            ''    # my note'', '''', ''freeride:'', ''  enabled: true'']"
  have "list_all (\<lambda>c. c \<noteq> [] \<and> strip c = c \<and> CHR 0x0A \<notin> set c \<and> CHR 0x0D \<notin> set c
           \<and> \<not> startswith c ''#'') cs"
    unfolding cs_def by code_simp
  then have h1: "\<forall>t. \<forall>c \<in> set ((\<lambda>t. cs) t).
      c \<noteq> [] \<and> strip c = c \<and> CHR 0x0A \<notin> set c \<and> CHR 0x0D \<notin> set c \<and> \<not> startswith c ''#''"
    by (simp add: list_all_iff)
  have p: "list_all (\<lambda>e. \<not> snd e \<longrightarrow> \<not> startswith (fst e) ''#'')
             (parse_tiers [''easy''] (universal_newlines stored) t)"
    for t
  proof (cases t)
    case SuperEasy
    show ?thesis unfolding SuperEasy stored_def by code_simp
  next
    case Easy
    show ?thesis unfolding Easy stored_def by code_simp
  next
    case Medium
    show ?thesis unfolding Medium stored_def by code_simp
  next
    case Hard
    show ?thesis unfolding Hard stored_def by code_simp
  next
    case SuperHard
    show ?thesis unfolding SuperHard stored_def by code_simp
  qed
  have h2: "\<forall>t. \<forall>e \<in> set (parse_tiers [''easy''] (universal_newlines stored) t).
      \<not> snd e \<longrightarrow> \<not> startswith (fst e) ''#''"
    using p by (simp add: list_all_iff)
  have v: "update_tier_bodies [''easy''] (\<lambda>t. cs) stored
     = join_on CHR 0x0A
           [''providers:'', ''  openrouter: {}'', ''models:'', ''  easy:'',
            ''  - openrouter:old/model:free'', ''  # - openrouter:banned/model:free'',
            ''  # - my note'', ''  - openrouter:new/model:free'',
            ''  - openrouter:openrouter/free:free'', ''freeride:'', ''  enabled: true'']"
    unfolding cs_def stored_def by code_simp
  from update_idempotent[OF h1 h2, of "[''easy'']"] v
  show ?thesis unfolding cs_def stored_def by blast
qed

theorem update_idempotent_counterexample:
  "update_tier_bodies [] (\<lambda>t. []) (join_on CHR 0x0A [''easy:'', ''  -  #x''])
     = join_on CHR 0x0A [''easy:'', ''  - #x'']
   \<and> update_tier_bodies [] (\<lambda>t. [])
       (update_tier_bodies [] (\<lambda>t. []) (join_on CHR 0x0A [''easy:'', ''  -  #x'']))
     = join_on CHR 0x0A [''easy:'', ''  # - x'']
   \<and> update_tier_bodies [] (\<lambda>t. [])
       (update_tier_bodies [] (\<lambda>t. []) (join_on CHR 0x0A [''easy:'', ''  -  #x'']))
     \<noteq> update_tier_bodies [] (\<lambda>t. []) (join_on CHR 0x0A [''easy:'', ''  -  #x''])"
  by code_simp

section \<open>The pipeline at failing inputs\<close>

text \<open>
  Claim C3 (non-tier content invariance): the rewriter at inputs where the claim fails.
  In a file whose tiers \<open>easy\<close> and \<open>medium\<close> start at indentation zero, the parser ends
  tier \<open>easy\<close> at the line \<open>medium:\<close> and reads \<open>b/two\<close> as the entry of \<open>medium\<close>; the
  rewriter's scan for the end of \<open>easy\<close> runs on to the line \<open>other: 1\<close>, and the written
  file has neither the line \<open>medium:\<close> nor the line of its entry. A file without tiers
  that is stored with a carriage return before the line feed is written without it.
\<close>

theorem later_tier_lines_deleted:
  "parse_tiers []
       (universal_newlines (join_on CHR 0x0A
          [''easy:'', ''  - a/one'', ''medium:'', ''  - b/two'', ''other: 1''])) Easy
     = [(''a/one'', False)]
   \<and> parse_tiers []
       (universal_newlines (join_on CHR 0x0A
          [''easy:'', ''  - a/one'', ''medium:'', ''  - b/two'', ''other: 1''])) Medium
     = [(''b/two'', False)]
   \<and> update_tier_bodies []
       (distribute_to_tiers
          [(\<lparr>model_id = ''meta-llama/llama-3.1-8b'', context_length = 131072\<rparr>, 1 / 3)])
       (join_on CHR 0x0A [''easy:'', ''  - a/one'', ''medium:'', ''  - b/two'', ''other: 1''])
     = join_on CHR 0x0A
         [''easy:'', ''  - a/one'', ''  - openrouter:meta-llama/llama-3.1-8b:free'',
          ''  - openrouter:openrouter/free:free'', ''other: 1'']
   \<and> update_tier_bodies []
       (distribute_to_tiers
          [(\<lparr>model_id = ''meta-llama/llama-3.1-8b'', context_length = 131072\<rparr>, 1 / 3)])
       (''top: 1'' @ [CHR 0x0D, CHR 0x0A] @ ''other: 2'')
     = ''top: 1'' @ [CHR 0x0A] @ ''other: 2''"
  by code_simp

text \<open>
  Claim C2 (comment preservation): the pipeline at an input where the claim fails. The
  comment line \<open>  # manual note\<close> of tier \<open>easy\<close> is written as \<open>  # - manual note\<close>. The
  comment line \<open>  # - c/optout\<close> of tier \<open>medium\<close>, which the parser reads as a commented
  entry of \<open>medium\<close>, is not in the written file.
\<close>

theorem comment_lines_not_kept:
  "parse_tiers []
       (universal_newlines (join_on CHR 0x0A
          [''easy:'', ''  # manual note'', ''  - a/one'', ''medium:'', ''  - b/two'',
           ''  # - c/optout'', ''other: 1''])) Medium
     = [(''b/two'', False), (''c/optout'', True)]
   \<and> update_tier_bodies []
       (distribute_to_tiers
          [(\<lparr>model_id = ''meta-llama/llama-3.1-8b'', context_length = 131072\<rparr>, 1 / 3)])
       (join_on CHR 0x0A
          [''easy:'', ''  # manual note'', ''  - a/one'', ''medium:'', ''  - b/two'',
           ''  # - c/optout'', ''other: 1''])
     = join_on CHR 0x0A
         [''easy:'', ''  # - manual note'', ''  - a/one'',
          ''  - openrouter:meta-llama/llama-3.1-8b:free'',
          ''  - openrouter:openrouter/free:free'', ''other: 1'']"
  by code_simp

text \<open>
  Claim C8 (fallback guarantee): the pipeline at an input where the claim fails. In a file
  with the five tiers nested under \<open>models:\<close>, the run writes one tier section,
  \<open>super_easy\<close>, with the entries of all five tiers and the fallback entry. In the
  written file the parser finds no entry at all for \<open>easy\<close>, \<open>medium\<close>, \<open>hard\<close> and
  \<open>super_hard\<close>: these four tiers do not have the fallback entry.
\<close>

theorem later_tiers_without_fallback:
  "update_tier_bodies [''super_easy'', ''easy'', ''medium'', ''hard'', ''super_hard'']
       (distribute_to_tiers
          [(\<lparr>model_id = ''meta-llama/llama-3.1-8b'', context_length = 131072\<rparr>, 1 / 3)])
       (join_on CHR 0x0A
          [''models:'', ''  super_easy:'', ''    - v/tiny'', ''  easy:'', ''    - w/small'',
           ''  medium:'', ''    - x/mid'', ''  hard:'', ''    - y/big'', ''  super_hard:'',
           ''    - z/huge'', ''freeride:'', ''  enabled: true''])
     = join_on CHR 0x0A
         [''models:'', ''  super_easy:'', ''  - v/tiny'', ''  - w/small'', ''  - x/mid'',
          ''  - y/big'', ''  - z/huge'', ''  - openrouter:openrouter/free:free'',
          ''freeride:'', ''  enabled: true'']
   \<and> map (parse_tiers [''super_easy'']
            (universal_newlines (join_on CHR 0x0A
               [''models:'', ''  super_easy:'', ''  - v/tiny'', ''  - w/small'', ''  - x/mid'',
                ''  - y/big'', ''  - z/huge'', ''  - openrouter:openrouter/free:free'',
                ''freeride:'', ''  enabled: true''])))
         [Easy, Medium, Hard, SuperHard]
     = [[], [], [], []]"
  by code_simp

end
